theory Spec2Isabelle
  imports Main
begin

section \<open>The WebSocket handler of main.go\<close>

text \<open>
  The only program of the repository is \<^verbatim>\<open>main.go\<close>: \<^verbatim>\<open>main\<close> registers
  \<^verbatim>\<open>streamHandler\<close> on \<^verbatim>\<open>/ws\<close>, and \<^verbatim>\<open>streamHandler\<close> upgrades the request to a
  WebSocket connection and writes the same text message to it in a loop until a write fails.

  The handler talks to two things outside the program: the upgrader and the connection.
  Both are modelled by what they answer. A Go \<^verbatim>\<open>error\<close> is represented by its message,
  \<^verbatim>\<open>nil\<close> by \<open>None\<close>.
\<close>

type_synonym error = string

text \<open>The message types of the websocket package; the handler uses \<^verbatim>\<open>websocket.TextMessage\<close>.\<close>

datatype message_type = TextMessage | BinaryMessage | CloseMessage | PingMessage | PongMessage

text \<open>
  A connection is given by the result of its \<open>i\<close>-th call of \<^verbatim>\<open>WriteMessage\<close>, counted from
  0: \<open>None\<close> when the call returns \<^verbatim>\<open>nil\<close>, \<open>Some e\<close> when it returns the error \<open>e\<close>.
  A connection whose writes never fail is \<open>\<lambda>i. None\<close>.
\<close>

type_synonym conn = "nat \<Rightarrow> error option"

text \<open>
  What the handler does to the outside, in the order it does it: a line handed to the
  logger (without the logger's time stamp and final newline), a call
  \<^verbatim>\<open>conn.WriteMessage(messageType, data)\<close>, and the deferred \<^verbatim>\<open>conn.Close()\<close>.
\<close>

datatype event = Log string | Write message_type string | Close

record handler_state =
  calls :: nat
  trace :: "event list"

definition start :: handler_state where
  "start = \<lparr>calls = 0, trace = []\<rparr>"

text \<open>
  One pass through the body of the \<^verbatim>\<open>for\<close> loop. The flag is \<open>True\<close> when the pass ends
  in \<^verbatim>\<open>break\<close>.
  \<^verbatim>\<open>
  message := []byte("Video frame data")
  err := conn.WriteMessage(websocket.TextMessage, message)
  if err != nil {
      log.Println("WriteMessage:", err)
      break
  }
  \<close>
  \<^verbatim>\<open>log.Println\<close> puts a space between its operands.
\<close>

definition loop_body :: "conn \<Rightarrow> handler_state \<Rightarrow> bool \<times> handler_state" where
  "loop_body c s =
    (let message = ''Video frame data'';
         err = c (calls s);
         s1 = s\<lparr>calls := Suc (calls s), trace := trace s @ [Write TextMessage message]\<rparr>
     in case err of
          Some e \<Rightarrow> (True, s1\<lparr>trace := trace s1 @ [Log (''WriteMessage: '' @ e)]\<rparr>)
        | None \<Rightarrow> (False, s1))"

text \<open>
  The loop \<^verbatim>\<open>for { ... }\<close> has no condition: it ends by \<^verbatim>\<open>break\<close> only, and runs forever
  on a connection whose writes never fail. Not returning is the value \<open>None\<close>.
\<close>

partial_function (option) write_loop :: "conn \<Rightarrow> handler_state \<Rightarrow> handler_state option" where
  "write_loop c s =
    (case loop_body c s of
       (brk, s') \<Rightarrow> if brk then Some s' else write_loop c s')"

text \<open>
  The same loop cut off after at most \<open>k\<close> passes: the state reached, and whether the loop
  has ended by then. It observes a run that never ends.
\<close>

fun run_iterations :: "nat \<Rightarrow> conn \<Rightarrow> handler_state \<Rightarrow> bool \<times> handler_state" where
  "run_iterations 0 c s = (False, s)"
| "run_iterations (Suc k) c s =
    (case loop_body c s of
       (brk, s') \<Rightarrow> if brk then (True, s') else run_iterations k c s')"

text \<open>
  The handler. \<^verbatim>\<open>upgrader.Upgrade(w, r, nil)\<close> answers with an error (\<open>Inl\<close>) or with a
  connection (\<open>Inr\<close>).
  \<^verbatim>\<open>
  conn, err := upgrader.Upgrade(w, r, nil)
  if err != nil {
      log.Print("Upgrade:", err)
      return
  }
  defer conn.Close()
  for { ... }
  \<close>
  \<^verbatim>\<open>log.Print\<close> puts no space next to a string operand. The deferred call runs when the
  function returns, that is after the loop; on the early return it is not yet registered.
\<close>

definition streamHandler :: "error + conn \<Rightarrow> handler_state option" where
  "streamHandler up =
    (case up of
       Inl err \<Rightarrow> Some (start\<lparr>trace := trace start @ [Log (''Upgrade:'' @ err)]\<rparr>)
     | Inr c \<Rightarrow>
         (case write_loop c start of
            None \<Rightarrow> None
          | Some s \<Rightarrow> Some (s\<lparr>trace := trace s @ [Close]\<rparr>)))"

text \<open>The messages handed to \<^verbatim>\<open>WriteMessage\<close> in a trace, in order.\<close>

fun writes_of :: "event list \<Rightarrow> (message_type \<times> string) list" where
  "writes_of [] = []"
| "writes_of (Write t p # evs) = (t, p) # writes_of evs"
| "writes_of (ev # evs) = writes_of evs"

text \<open>A connection whose first two writes succeed and whose third write fails.\<close>

definition flaky :: conn where
  "flaky = (\<lambda>i. if i = 2 then Some ''broken pipe'' else None)"

section \<open>One pass, and runs cut off after finitely many passes\<close>

lemma loop_body_nil:
  "c (calls s) = None \<Longrightarrow>
   loop_body c s = (False, s\<lparr>calls := Suc (calls s), trace := trace s @ [Write TextMessage ''Video frame data'']\<rparr>)"
  by (simp add: loop_body_def)

lemma loop_body_err:
  "c (calls s) = Some e \<Longrightarrow>
   loop_body c s = (True, s\<lparr>calls := Suc (calls s),
      trace := trace s @ [Write TextMessage ''Video frame data'', Log (''WriteMessage: '' @ e)]\<rparr>)"
  by (simp add: loop_body_def)

lemma run_iterations_open:
  "\<forall>i<k. c (calls s + i) = None \<Longrightarrow>
   run_iterations k c s =
     (False, s\<lparr>calls := calls s + k,
               trace := trace s @ replicate k (Write TextMessage ''Video frame data'')\<rparr>)"
proof (induction k arbitrary: s)
  case 0
  show ?case by simp
next
  case (Suc k)
  let ?s1 = "s\<lparr>calls := Suc (calls s), trace := trace s @ [Write TextMessage ''Video frame data'']\<rparr>"
  from Suc.prems have c0: "c (calls s) = None" by (metis add.right_neutral zero_less_Suc)
  have "\<forall>i<k. c (calls ?s1 + i) = None"
  proof (intro allI impI)
    fix i assume "i < k"
    then have "Suc i < Suc k" by simp
    with Suc.prems have "c (calls s + Suc i) = None" by blast
    then show "c (calls ?s1 + i) = None" by simp
  qed
  from Suc.IH [OF this] c0 show ?case
    by (simp add: loop_body_nil replicate_append_same)
qed

lemma run_iterations_returned:
  "run_iterations k c s = (True, s') \<Longrightarrow>
   \<exists>n e. n < k \<and> c (calls s + n) = Some e \<and> (\<forall>i<n. c (calls s + i) = None) \<and>
     s' = s\<lparr>calls := calls s + Suc n,
            trace := trace s @ replicate (Suc n) (Write TextMessage ''Video frame data'')
                     @ [Log (''WriteMessage: '' @ e)]\<rparr>"
proof (induction k arbitrary: s)
  case 0
  then show ?case by simp
next
  case (Suc k)
  let ?s1 = "s\<lparr>calls := Suc (calls s), trace := trace s @ [Write TextMessage ''Video frame data'']\<rparr>"
  show ?case
  proof (cases "c (calls s)")
    case (Some e)
    with Suc.prems have "s' = s\<lparr>calls := Suc (calls s),
      trace := trace s @ [Write TextMessage ''Video frame data'', Log (''WriteMessage: '' @ e)]\<rparr>"
      by (simp add: loop_body_err)
    with Some show ?thesis by (intro exI [of _ 0] exI [of _ e]) simp
  next
    case None
    with Suc.prems have "run_iterations k c ?s1 = (True, s')" by (simp add: loop_body_nil)
    from Suc.IH [OF this] obtain n e where n: "n < k" "c (Suc (calls s) + n) = Some e"
      "\<forall>i<n. c (Suc (calls s) + i) = None"
      "s' = ?s1\<lparr>calls := calls ?s1 + Suc n,
            trace := trace ?s1 @ replicate (Suc n) (Write TextMessage ''Video frame data'')
                     @ [Log (''WriteMessage: '' @ e)]\<rparr>" by auto
    have "\<forall>i<Suc n. c (calls s + i) = None"
    proof (intro allI impI)
      fix i assume "i < Suc n"
      show "c (calls s + i) = None"
      proof (cases i)
        case 0 with None show ?thesis by simp
      next
        case (Suc j) with \<open>i < Suc n\<close> n(3) show ?thesis by simp
      qed
    qed
    with n show ?thesis by (intro exI [of _ "Suc n"] exI [of _ e]) simp
  qed
qed

section \<open>The loop returns exactly when a cut-off run has ended\<close>

lemma write_loop_of_run:
  "run_iterations k c s = (True, s') \<Longrightarrow> write_loop c s = Some s'"
proof (induction k arbitrary: s)
  case 0
  then show ?case by simp
next
  case (Suc k)
  obtain brk s1 where b: "loop_body c s = (brk, s1)" by (cases "loop_body c s")
  show ?case
  proof (cases brk)
    case True
    with b Suc.prems show ?thesis by (subst write_loop.simps) simp
  next
    case False
    with b Suc.prems have "run_iterations k c s1 = (True, s')" by simp
    from Suc.IH [OF this] b False show ?thesis by (subst write_loop.simps) simp
  qed
qed

lemma run_of_write_loop:
  assumes ret: "write_loop c s = Some s'"
  shows "\<exists>k. run_iterations k c s = (True, s')"
proof (rule write_loop.raw_induct
    [where P = "\<lambda>c s s'. \<exists>k. run_iterations k c s = (True, s')", OF _ ret])
  fix f :: "conn \<Rightarrow> handler_state \<Rightarrow> handler_state option" and c s s'
  assume IH: "\<And>c s y. f c s = Some y \<Longrightarrow> \<exists>k. run_iterations k c s = (True, y)"
    and body: "(case loop_body c s of (brk, s') \<Rightarrow> if brk then Some s' else f c s') = Some s'"
  obtain brk s1 where b: "loop_body c s = (brk, s1)" by (cases "loop_body c s")
  show "\<exists>k. run_iterations k c s = (True, s')"
  proof (cases brk)
    case True
    with b body have "run_iterations (Suc 0) c s = (True, s')" by simp
    then show ?thesis ..
  next
    case False
    with b body have "f c s1 = Some s'" by simp
    from IH [OF this] obtain k where "run_iterations k c s1 = (True, s')" ..
    with b False have "run_iterations (Suc k) c s = (True, s')" by simp
    then show ?thesis ..
  qed
qed


section \<open>What the loop returns\<close>

lemma run_iterations_break:
  "c (calls s + n) = Some e \<Longrightarrow> \<forall>i<n. c (calls s + i) = None \<Longrightarrow>
   run_iterations (Suc n) c s =
     (True, s\<lparr>calls := calls s + Suc n,
              trace := trace s @ replicate (Suc n) (Write TextMessage ''Video frame data'')
                       @ [Log (''WriteMessage: '' @ e)]\<rparr>)"
proof (induction n arbitrary: s)
  case 0
  then show ?case by (simp add: loop_body_err)
next
  case (Suc n)
  let ?s1 = "s\<lparr>calls := Suc (calls s), trace := trace s @ [Write TextMessage ''Video frame data'']\<rparr>"
  from Suc.prems(2) have c0: "c (calls s) = None" by (metis add.right_neutral zero_less_Suc)
  from Suc.prems(1) have e: "c (calls ?s1 + n) = Some e" by simp
  have "\<forall>i<n. c (calls ?s1 + i) = None"
  proof (intro allI impI)
    fix i assume "i < n"
    then have "Suc i < Suc n" by simp
    with Suc.prems(2) have "c (calls s + Suc i) = None" by blast
    then show "c (calls ?s1 + i) = None" by simp
  qed
  from Suc.IH [OF e this] have
    "run_iterations (Suc n) c ?s1 =
      (True, ?s1\<lparr>calls := calls ?s1 + Suc n,
              trace := trace ?s1 @ replicate (Suc n) (Write TextMessage ''Video frame data'')
                       @ [Log (''WriteMessage: '' @ e)]\<rparr>)" .
  with c0 show ?case
    by (subst run_iterations.simps) (simp add: loop_body_nil)
qed

lemma write_loop_returns:
  "write_loop c start = Some s \<longleftrightarrow>
   (\<exists>n e. c n = Some e \<and> (\<forall>i<n. c i = None) \<and>
      s = \<lparr>calls = Suc n,
           trace = replicate (Suc n) (Write TextMessage ''Video frame data'')
                   @ [Log (''WriteMessage: '' @ e)]\<rparr>)"
proof
  assume "write_loop c start = Some s"
  then obtain k where "run_iterations k c start = (True, s)"
    using run_of_write_loop by blast
  from run_iterations_returned [OF this] show
    "\<exists>n e. c n = Some e \<and> (\<forall>i<n. c i = None) \<and>
      s = \<lparr>calls = Suc n,
           trace = replicate (Suc n) (Write TextMessage ''Video frame data'')
                   @ [Log (''WriteMessage: '' @ e)]\<rparr>"
    by (auto simp: start_def)
next
  assume "\<exists>n e. c n = Some e \<and> (\<forall>i<n. c i = None) \<and>
      s = \<lparr>calls = Suc n,
           trace = replicate (Suc n) (Write TextMessage ''Video frame data'')
                   @ [Log (''WriteMessage: '' @ e)]\<rparr>"
  then obtain n e where ne: "c n = Some e" "\<forall>i<n. c i = None"
    and s: "s = \<lparr>calls = Suc n,
           trace = replicate (Suc n) (Write TextMessage ''Video frame data'')
                   @ [Log (''WriteMessage: '' @ e)]\<rparr>" by blast
  from ne have "run_iterations (Suc n) c start =
     (True, start\<lparr>calls := calls start + Suc n,
              trace := trace start @ replicate (Suc n) (Write TextMessage ''Video frame data'')
                       @ [Log (''WriteMessage: '' @ e)]\<rparr>)"
    by (intro run_iterations_break) (simp_all add: start_def)
  then have "run_iterations (Suc n) c start = (True, s)"
    by (simp add: s start_def)
  then show "write_loop c start = Some s" by (rule write_loop_of_run)
qed

lemma first_error:
  assumes "c (m::nat) \<noteq> None"
  shows "\<exists>n e. c n = Some e \<and> (\<forall>i<n. c i = None)"
proof -
  let ?n = "LEAST n. c n \<noteq> None"
  from assms have "c ?n \<noteq> None" by (rule LeastI)
  then obtain e where "c ?n = Some e" by blast
  moreover have "\<forall>i<?n. c i = None" using not_less_Least by blast
  ultimately show ?thesis by blast
qed

lemma write_loop_diverges:
  "write_loop c start = None \<longleftrightarrow> (\<forall>i. c i = None)"
proof
  assume d: "write_loop c start = None"
  show "\<forall>i. c i = None"
  proof (rule ccontr)
    assume "\<not> (\<forall>i. c i = None)"
    then obtain m where "c m \<noteq> None" by blast
    with first_error [of c m] obtain n e where "c n = Some e" "\<forall>i<n. c i = None" by blast
    then have "\<exists>s. write_loop c start = Some s" using write_loop_returns by blast
    with d show False by simp
  qed
next
  assume a: "\<forall>i. c i = None"
  show "write_loop c start = None"
  proof (cases "write_loop c start")
    case None then show ?thesis .
  next
    case (Some s)
    then obtain n e where "c n = Some e" unfolding write_loop_returns by blast
    with a show ?thesis by simp
  qed
qed

section \<open>The messages written\<close>

lemma writes_of_append: "writes_of (xs @ ys) = writes_of xs @ writes_of ys"
  by (induction xs rule: writes_of.induct) simp_all

lemma writes_of_loop_body:
  "writes_of (trace (snd (loop_body c s))) =
   writes_of (trace s) @ [(TextMessage, ''Video frame data'')]"
  by (cases "c (calls s)") (simp_all add: loop_body_nil loop_body_err writes_of_append)

lemma writes_of_run_iterations:
  "set (writes_of (trace (snd (run_iterations k c s))))
   \<subseteq> set (writes_of (trace s)) \<union> {(TextMessage, ''Video frame data'')}"
proof (induction k arbitrary: s)
  case 0
  show ?case by auto
next
  case (Suc k)
  obtain brk s1 where b: "loop_body c s = (brk, s1)" by (cases "loop_body c s")
  from writes_of_loop_body [of c s] b
  have w1: "writes_of (trace s1) = writes_of (trace s) @ [(TextMessage, ''Video frame data'')]"
    by simp
  show ?case
  proof (cases brk)
    case True
    with b w1 show ?thesis by simp
  next
    case False
    with b have "run_iterations (Suc k) c s = run_iterations k c s1" by simp
    with Suc.IH [of s1] w1 show ?thesis by auto
  qed
qed

section \<open>The claims about the handler\<close>

text \<open>
  Claim C9. On a connection that \<^verbatim>\<open>streamHandler\<close> has accepted, every message handed to
  \<^verbatim>\<open>WriteMessage\<close> is a text message with the payload \<^verbatim>\<open>Video frame data\<close>, after any
  number of passes of the loop and so also in a run that never ends. The write loop ends
  only on a write error: when the handler returns, some call \<open>n\<close> of \<^verbatim>\<open>WriteMessage\<close>
  returned an error, every earlier call returned \<^verbatim>\<open>nil\<close>, and the handler made exactly
  these \<open>n + 1\<close> calls, logged the error and closed the connection. The handler does not
  return exactly when no write ever fails.
\<close>

theorem streamHandler_writes_text_until_error:
  "(\<forall>k. \<forall>m \<in> set (writes_of (trace (snd (run_iterations k c start)))).
        m = (TextMessage, ''Video frame data''))
   \<and> (\<forall>s. streamHandler (Inr c) = Some s \<longrightarrow>
        (\<exists>n e. c n = Some e \<and> (\<forall>i<n. c i = None) \<and>
           s = \<lparr>calls = Suc n,
                trace = replicate (Suc n) (Write TextMessage ''Video frame data'')
                        @ [Log (''WriteMessage: '' @ e), Close]\<rparr>))
   \<and> (streamHandler (Inr c) = None \<longleftrightarrow> (\<forall>i. c i = None))"
proof (intro conjI allI impI ballI)
  fix k m
  assume "m \<in> set (writes_of (trace (snd (run_iterations k c start))))"
  with writes_of_run_iterations [of k c start]
  show "m = (TextMessage, ''Video frame data'')" by (auto simp: start_def)
next
  fix s
  assume "streamHandler (Inr c) = Some s"
  then obtain s1 where s1: "write_loop c start = Some s1" and s: "s = s1\<lparr>trace := trace s1 @ [Close]\<rparr>"
    by (auto simp: streamHandler_def split: option.splits)
  from s1 obtain n e where "c n = Some e" "\<forall>i<n. c i = None"
      "s1 = \<lparr>calls = Suc n,
           trace = replicate (Suc n) (Write TextMessage ''Video frame data'')
                   @ [Log (''WriteMessage: '' @ e)]\<rparr>"
    unfolding write_loop_returns by blast
  with s show "\<exists>n e. c n = Some e \<and> (\<forall>i<n. c i = None) \<and>
           s = \<lparr>calls = Suc n,
                trace = replicate (Suc n) (Write TextMessage ''Video frame data'')
                        @ [Log (''WriteMessage: '' @ e), Close]\<rparr>"
    by (intro exI [of _ n] exI [of _ e]) simp
next
  have "streamHandler (Inr c) = None \<longleftrightarrow> write_loop c start = None"
    by (simp add: streamHandler_def split: option.splits)
  then show "streamHandler (Inr c) = None \<longleftrightarrow> (\<forall>i. c i = None)"
    by (simp add: write_loop_diverges)
qed

theorem streamHandler_writes_text_until_error_witness:
  "streamHandler (Inr flaky) =
     Some \<lparr>calls = 3,
           trace = [Write TextMessage ''Video frame data'',
                    Write TextMessage ''Video frame data'',
                    Write TextMessage ''Video frame data'',
                    Log ''WriteMessage: broken pipe'', Close]\<rparr>
   \<and> writes_of (trace (snd (run_iterations 2 flaky start))) =
       [(TextMessage, ''Video frame data''), (TextMessage, ''Video frame data'')]"
proof -
  note inst = streamHandler_writes_text_until_error [of flaky]
  have "flaky 2 \<noteq> None" by (simp add: flaky_def)
  then have "\<not> (\<forall>i. flaky i = None)" by auto
  with inst have "streamHandler (Inr flaky) \<noteq> None" by simp
  then obtain s where s: "streamHandler (Inr flaky) = Some s" by blast
  with inst obtain n e where ne: "flaky n = Some e"
    and s_eq: "s = \<lparr>calls = Suc n,
                trace = replicate (Suc n) (Write TextMessage ''Video frame data'')
                        @ [Log (''WriteMessage: '' @ e), Close]\<rparr>" by blast
  from ne have "n = 2" "e = ''broken pipe''" by (simp_all add: flaky_def split: if_splits)
  with s s_eq have ret: "streamHandler (Inr flaky) =
     Some \<lparr>calls = 3,
           trace = [Write TextMessage ''Video frame data'',
                    Write TextMessage ''Video frame data'',
                    Write TextMessage ''Video frame data'',
                    Log ''WriteMessage: broken pipe'', Close]\<rparr>"
    by (simp add: numeral_2_eq_2)
  have len: "length (writes_of (trace (snd (run_iterations 2 flaky start)))) = 2"
    by (simp add: numeral_2_eq_2 loop_body_def flaky_def start_def)
  from inst have "\<forall>m \<in> set (writes_of (trace (snd (run_iterations 2 flaky start)))).
         m = (TextMessage, ''Video frame data'')" by blast
  then have "writes_of (trace (snd (run_iterations 2 flaky start))) =
       replicate (length (writes_of (trace (snd (run_iterations 2 flaky start)))))
         (TextMessage, ''Video frame data'')"
    by (intro replicate_length_same [symmetric])
  with len have "writes_of (trace (snd (run_iterations 2 flaky start))) =
       [(TextMessage, ''Video frame data''), (TextMessage, ''Video frame data'')]"
    by (simp add: numeral_2_eq_2)
  with ret show ?thesis by blast
qed

text \<open>
  Claim C10. When the upgrade fails, \<^verbatim>\<open>streamHandler\<close> logs the error and returns having
  called neither \<^verbatim>\<open>WriteMessage\<close> nor \<^verbatim>\<open>Close\<close>. When the upgrade succeeds, every return
  of the handler has closed the connection: \<^verbatim>\<open>Close\<close> is the last thing the handler does
  and it does it once. A write error does make the handler return, so this exit exists.
\<close>

theorem streamHandler_closes_connection:
  "streamHandler (Inl err) = Some \<lparr>calls = 0, trace = [Log (''Upgrade:'' @ err)]\<rparr>
   \<and> (\<forall>s. streamHandler (Inr c) = Some s \<longrightarrow>
        (\<exists>tr. trace s = tr @ [Close] \<and> Close \<notin> set tr))
   \<and> (\<forall>n e. c n = Some e \<longrightarrow> streamHandler (Inr c) \<noteq> None)"
proof (intro conjI allI impI)
  show "streamHandler (Inl err) = Some \<lparr>calls = 0, trace = [Log (''Upgrade:'' @ err)]\<rparr>"
    by (simp add: streamHandler_def start_def)
next
  fix s
  assume "streamHandler (Inr c) = Some s"
  then obtain s1 where s1: "write_loop c start = Some s1" and s: "s = s1\<lparr>trace := trace s1 @ [Close]\<rparr>"
    by (auto simp: streamHandler_def split: option.splits)
  from s1 obtain n e where
      "s1 = \<lparr>calls = Suc n,
           trace = replicate (Suc n) (Write TextMessage ''Video frame data'')
                   @ [Log (''WriteMessage: '' @ e)]\<rparr>"
    unfolding write_loop_returns by blast
  then have "Close \<notin> set (trace s1)" by auto
  with s show "\<exists>tr. trace s = tr @ [Close] \<and> Close \<notin> set tr" by simp
next
  fix n e
  assume "c n = Some e"
  then have "\<not> (\<forall>i. c i = None)" by auto
  then have "write_loop c start \<noteq> None" by (simp add: write_loop_diverges)
  then show "streamHandler (Inr c) \<noteq> None"
    by (auto simp: streamHandler_def split: option.splits)
qed


theorem streamHandler_closes_connection_witness:
  "streamHandler (Inl ''bad handshake'') =
     Some \<lparr>calls = 0, trace = [Log ''Upgrade:bad handshake'']\<rparr>
   \<and> (\<exists>s tr. streamHandler (Inr flaky) = Some s \<and> trace s = tr @ [Close] \<and> Close \<notin> set tr)"
proof -
  note inst = streamHandler_closes_connection [of "''bad handshake''" flaky]
  have "flaky 2 = Some ''broken pipe''" by (simp add: flaky_def)
  with inst have "streamHandler (Inr flaky) \<noteq> None" by metis
  then obtain s where s: "streamHandler (Inr flaky) = Some s" by blast
  with inst obtain tr where "trace s = tr @ [Close]" "Close \<notin> set tr" by blast
  with s have "\<exists>s tr. streamHandler (Inr flaky) = Some s \<and> trace s = tr @ [Close] \<and> Close \<notin> set tr"
    by blast
  moreover from inst have "streamHandler (Inl ''bad handshake'') =
     Some \<lparr>calls = 0, trace = [Log ''Upgrade:bad handshake'']\<rparr>" by simp
  ultimately show ?thesis by blast
qed

end
